theory Spec2Isabelle
  imports Main "HOL-Library.AList"
begin

section \<open>Errors\<close>

text \<open>
  Every exception the embedded code raises is a value. \<open>CacheCorruption\<close> carries the
  package coordinate and what its message reports: the token count of
  \<open>"_eclasses_ was of invalid len %i"\<close> or the raw string of \<open>"ValueError reading %r"\<close>.
  \<open>SanityCheck\<close> is the bare \<open>raise Exception\<close> of \<open>fill_slotting\<close>.
\<close>

type_synonym cpv = string

datatype corruption = InvalidLen nat | ValueErrorReading string

datatype error =
    ReadOnly
  | CacheCorruption cpv corruption
  | KeyError
  | IndexError
  | TypeError
  | AttributeError
  | NotImplementedError
  | SanityCheck

section \<open>Slot tracking: \<open>pkgcore/graph/pigeonholes.py\<close>\<close>

subsection \<open>Objects held in a bucket\<close>

text \<open>
  \<open>PigeonHoledSlots\<close> stores two kinds of object in one list per key: packages, of
  which it reads \<open>key\<close> and \<open>slot\<close> and which it compares with \<open>==\<close>, and
  \<open>restriction.base\<close> instances (atoms), of which it reads \<open>key\<close> and calls
  \<open>match\<close>. \<open>isinstance(x, restriction.base)\<close> is the constructor test of
  \<open>entry\<close>. Each object carries the identity that Python's \<open>is\<close> compares: two
  entries are the same object exactly when they are equal as values of \<open>entry\<close>.
  The package's \<open>__eq__\<close> and the atom's \<open>match\<close> are defined by classes outside
  this module; they are the parameters \<open>eqv\<close> and \<open>mtch\<close>, and \<open>pkg_ver\<close> and
  \<open>atom_ver\<close> stand for the rest of an object's value, which only they read.
\<close>

type_synonym key = string

record pkg =
  pkg_id :: nat
  pkg_key :: key
  pkg_slot :: string
  pkg_ver :: string

record atom =
  atom_id :: nat
  atom_key :: key
  atom_ver :: string

datatype entry = Pkg pkg | Atom atom

type_synonym slot_dict = "key \<rightharpoonup> entry list"

definition entry_key :: "entry \<Rightarrow> key" where
  "entry_key e = (case e of Pkg p \<Rightarrow> pkg_key p | Atom a \<Rightarrow> atom_key a)"

definition blocks :: "(atom \<Rightarrow> pkg \<Rightarrow> bool) \<Rightarrow> pkg \<Rightarrow> entry \<Rightarrow> bool" where
  "blocks mtch p y = (case y of Atom a \<Rightarrow> mtch a p | Pkg _ \<Rightarrow> False)"

subsection \<open>\<open>fill_slotting\<close>\<close>

text \<open>
  The \<open>for x in bucket\<close> loop of \<open>fill_slotting\<close>, with the conflict list \<open>l\<close> as
  accumulator. The candidate \<open>obj\<close> is a package: the loop reads its \<open>slot\<close>. It ends in one of three ways: the sanity check raises (\<open>Inl\<close>), the
  loop is left by \<open>return []\<close> at a value-equal package (\<open>Inr None\<close>), or the scan
  completes with the conflicts found (\<open>Inr (Some l)\<close>).
\<close>

fun fill_scan ::
  "(atom \<Rightarrow> pkg \<Rightarrow> bool) \<Rightarrow> (pkg \<Rightarrow> pkg \<Rightarrow> bool) \<Rightarrow> entry list \<Rightarrow> pkg \<Rightarrow>
   entry list \<Rightarrow> entry list \<Rightarrow> error + entry list option" where
  "fill_scan mtch eqv bucket obj [] l = Inr (Some l)"
| "fill_scan mtch eqv bucket obj (Atom a # xs) l =
     fill_scan mtch eqv bucket obj xs (if mtch a obj then l @ [Atom a] else l)"
| "fill_scan mtch eqv bucket obj (Pkg x # xs) l =
     (if pkg_slot x = pkg_slot obj then
        (if eqv x obj then
           (if list_ex (blocks mtch x) bucket then Inl SanityCheck else Inr None)
         else fill_scan mtch eqv bucket obj xs (l @ [Pkg x]))
      else fill_scan mtch eqv bucket obj xs l)"

text \<open>
  \<open>slot_dict.setdefault(key, [])\<close> stores the empty bucket when the key is new, so the
  dictionary is updated before the scan starts; the returned pair is the outcome and
  the dictionary the call leaves behind, also when it raises.
\<close>

definition fill_slotting ::
  "(atom \<Rightarrow> pkg \<Rightarrow> bool) \<Rightarrow> (pkg \<Rightarrow> pkg \<Rightarrow> bool) \<Rightarrow> pkg \<Rightarrow> slot_dict \<Rightarrow>
   (error + entry list) \<times> slot_dict" where
  "fill_slotting mtch eqv obj sd =
     (let key = pkg_key obj;
          bucket = (case sd key of None \<Rightarrow> [] | Some b \<Rightarrow> b);
          sd1 = sd(key \<mapsto> bucket)
      in case fill_scan mtch eqv bucket obj bucket [] of
           Inl e \<Rightarrow> (Inl e, sd1)
         | Inr None \<Rightarrow> (Inr [], sd1)
         | Inr (Some l) \<Rightarrow>
             (if l = [] then (Inr l, sd1(key \<mapsto> bucket @ [Pkg obj])) else (Inr l, sd1)))"

subsection \<open>\<open>add_limiter\<close>\<close>

definition add_limiter ::
  "(atom \<Rightarrow> pkg \<Rightarrow> bool) \<Rightarrow> entry \<Rightarrow> slot_dict \<Rightarrow> (error + entry list) \<times> slot_dict" where
  "add_limiter mtch atom sd =
     (case atom of
        Pkg _ \<Rightarrow> (Inl TypeError, sd)
      | Atom a \<Rightarrow>
          (let bucket = (case sd (atom_key a) of None \<Rightarrow> [] | Some b \<Rightarrow> b);
               l = filter (\<lambda>x. case x of Pkg p \<Rightarrow> mtch a p | Atom _ \<Rightarrow> False) bucket
           in (Inr l, sd(atom_key a \<mapsto> bucket @ [Atom a]))))"

subsection \<open>\<open>remove_slotting\<close>\<close>

definition remove_slotting :: "entry \<Rightarrow> slot_dict \<Rightarrow> (error + unit) \<times> slot_dict" where
  "remove_slotting obj sd =
     (let key = entry_key obj in
      case sd key of
        None \<Rightarrow> (Inl KeyError, sd)
      | Some bucket \<Rightarrow>
          (let l = filter (\<lambda>x. x \<noteq> obj) bucket in
           if length l = length bucket then (Inl KeyError, sd)
           else if l \<noteq> [] then (Inr (), sd(key \<mapsto> l))
           else (Inr (), sd(key := None))))"

subsection \<open>Sequences of operations\<close>

datatype tracker_op = Fill pkg | Limit entry | Remove entry

fun apply_op ::
  "(atom \<Rightarrow> pkg \<Rightarrow> bool) \<Rightarrow> (pkg \<Rightarrow> pkg \<Rightarrow> bool) \<Rightarrow> slot_dict \<Rightarrow> tracker_op \<Rightarrow> slot_dict" where
  "apply_op mtch eqv sd (Fill p) = snd (fill_slotting mtch eqv p sd)"
| "apply_op mtch eqv sd (Limit a) = snd (add_limiter mtch a sd)"
| "apply_op mtch eqv sd (Remove e) = snd (remove_slotting e sd)"

text \<open>The tracker after a sequence of calls on a new \<open>PigeonHoledSlots()\<close>.\<close>

definition run_ops ::
  "(atom \<Rightarrow> pkg \<Rightarrow> bool) \<Rightarrow> (pkg \<Rightarrow> pkg \<Rightarrow> bool) \<Rightarrow> tracker_op list \<Rightarrow> slot_dict" where
  "run_ops mtch eqv ops = foldl (apply_op mtch eqv) Map.empty ops"

subsection \<open>Invariants of the buckets\<close>

text \<open>The packages of a bucket, in order.\<close>

fun occupants :: "entry list \<Rightarrow> pkg list" where
  "occupants [] = []"
| "occupants (Pkg p # xs) = p # occupants xs"
| "occupants (Atom a # xs) = occupants xs"

definition slots_unique :: "entry list \<Rightarrow> bool" where
  "slots_unique b = distinct (map pkg_slot (occupants b))"

text \<open>
  \<open>guarded mtch seen b\<close>: no package of \<open>b\<close> is matched by an atom that stands before
  it, in \<open>seen\<close> or in \<open>b\<close>.
\<close>

fun guarded :: "(atom \<Rightarrow> pkg \<Rightarrow> bool) \<Rightarrow> entry list \<Rightarrow> entry list \<Rightarrow> bool" where
  "guarded mtch seen [] = True"
| "guarded mtch seen (x # xs) =
     ((case x of Pkg p \<Rightarrow> \<not> list_ex (blocks mtch p) seen | Atom _ \<Rightarrow> True)
      \<and> guarded mtch (seen @ [x]) xs)"

text \<open>The entries registered under a key: none if the key has no bucket.\<close>

definition bucket_of :: "slot_dict \<Rightarrow> key \<Rightarrow> entry list" where
  "bucket_of sd k = (case sd k of None \<Rightarrow> [] | Some b \<Rightarrow> b)"

text \<open>The entries \<open>fill_slotting\<close> reports for a candidate that equals none of them.\<close>

definition conflicts :: "(atom \<Rightarrow> pkg \<Rightarrow> bool) \<Rightarrow> pkg \<Rightarrow> entry \<Rightarrow> bool" where
  "conflicts mtch obj x =
     (case x of Atom a \<Rightarrow> mtch a obj | Pkg p \<Rightarrow> pkg_slot p = pkg_slot obj)"

definition no_empty_bucket :: "slot_dict \<Rightarrow> bool" where
  "no_empty_bucket sd = (\<forall>k. sd k \<noteq> Some [])"

definition bucket_ok :: "(atom \<Rightarrow> pkg \<Rightarrow> bool) \<Rightarrow> entry list \<Rightarrow> bool" where
  "bucket_ok mtch b = (slots_unique b \<and> guarded mtch [] b)"

definition buckets_ok :: "(atom \<Rightarrow> pkg \<Rightarrow> bool) \<Rightarrow> slot_dict \<Rightarrow> bool" where
  "buckets_ok mtch sd = (\<forall>k b. sd k = Some b \<longrightarrow> bucket_ok mtch b)"

text \<open>
  The invariant in the specification's words: per key, at most one package per slot,
  and no package matched by any atom registered under the same key.
\<close>

definition tracker_invariant :: "(atom \<Rightarrow> pkg \<Rightarrow> bool) \<Rightarrow> slot_dict \<Rightarrow> bool" where
  "tracker_invariant mtch sd =
     (\<forall>k b. sd k = Some b \<longrightarrow>
        distinct (map pkg_slot (occupants b)) \<and>
        (\<forall>p a. Pkg p \<in> set b \<and> Atom a \<in> set b \<longrightarrow> \<not> mtch a p))"

subsection \<open>Example objects\<close>

text \<open>
  Three packages of one key and slot, two of them of equal value, an atom, and instances
  of \<open>match\<close> and \<open>__eq__\<close> that compare keys and versions.
\<close>

definition python_key :: key where
  "python_key = ''dev-lang/python''"

definition pkg_A :: pkg where
  "pkg_A = \<lparr>pkg_id = 1, pkg_key = python_key, pkg_slot = ''1'', pkg_ver = ''2.4''\<rparr>"

definition pkg_A2 :: pkg where
  "pkg_A2 = \<lparr>pkg_id = 2, pkg_key = python_key, pkg_slot = ''1'', pkg_ver = ''2.4''\<rparr>"

definition pkg_B :: pkg where
  "pkg_B = \<lparr>pkg_id = 3, pkg_key = python_key, pkg_slot = ''1'', pkg_ver = ''2.5''\<rparr>"

definition blocker_24 :: atom where
  "blocker_24 = \<lparr>atom_id = 4, atom_key = python_key, atom_ver = ''2.4''\<rparr>"

definition version_match :: "atom \<Rightarrow> pkg \<Rightarrow> bool" where
  "version_match a p = (atom_key a = pkg_key p \<and> atom_ver a = pkg_ver p)"

definition same_version :: "pkg \<Rightarrow> pkg \<Rightarrow> bool" where
  "same_version x y = (pkg_key x = pkg_key y \<and> pkg_ver x = pkg_ver y)"

section \<open>Eclass codec: \<open>pkgcore/cache/__init__.py\<close>\<close>

subsection \<open>Values stored in a metadata record\<close>

text \<open>
  A record maps metadata keys to strings, except that \<open>_eclasses_\<close> holds, in memory,
  a dict from eclass name to \<open>(path, mtime)\<close>. A dict is an association list with
  distinct keys, in its iteration order; \<open>d[k] = v\<close> is \<open>AList.update\<close>. The
  modification time is a Python \<open>long\<close>, an unbounded integer.
\<close>

type_synonym eclass_dict = "(string \<times> (string \<times> int)) list"

datatype val = Str string | Ecl eclass_dict

subsection \<open>The string operations of Python the codec uses\<close>

definition TAB :: char where
  "TAB = CHR 0x09"

text \<open>
  Strings are Python 2 byte strings. \<open>str.strip()\<close> removes the characters of
  \<open>string.whitespace\<close> at both ends.
\<close>

definition is_space :: "char \<Rightarrow> bool" where
  "is_space c = ((of_char c :: nat) \<in> {9, 10, 11, 12, 13, 32})"

definition strip :: "string \<Rightarrow> string" where
  "strip s = rev (dropWhile is_space (rev (dropWhile is_space s)))"

text \<open>\<open>s.split(sep)\<close> for a one-character separator: never empty, \<open>"".split(sep) == [""]\<close>.\<close>

fun split_on :: "char \<Rightarrow> string \<Rightarrow> string list" where
  "split_on sep [] = [[]]"
| "split_on sep (c # cs) =
     (if c = sep then [] # split_on sep cs
      else (case split_on sep cs of [] \<Rightarrow> [[c]] | t # ts \<Rightarrow> (c # t) # ts))"

text \<open>\<open>sep.join(xs)\<close>.\<close>

fun join_on :: "char \<Rightarrow> string list \<Rightarrow> string" where
  "join_on sep [] = []"
| "join_on sep [t] = t"
| "join_on sep (t # u # ts) = t @ sep # join_on sep (u # ts)"

definition is_digit :: "char \<Rightarrow> bool" where
  "is_digit c = (48 \<le> (of_char c :: nat) \<and> (of_char c :: nat) \<le> 57)"

text \<open>\<open>str.isdigit()\<close>: at least one character, and all of them digits.\<close>

definition isdigit :: "string \<Rightarrow> bool" where
  "isdigit s = (s \<noteq> [] \<and> list_all is_digit s)"

text \<open>\<open>"%s" % n\<close> for an integer: its decimal digits, after a minus sign if negative.\<close>

fun digits_of :: "nat \<Rightarrow> string" where
  "digits_of n =
     (if n < 10 then [char_of (48 + n)]
      else digits_of (n div 10) @ [char_of (48 + n mod 10)])"

declare digits_of.simps [simp del]

definition str_of_int :: "int \<Rightarrow> string" where
  "str_of_int i = (if i < 0 then CHR ''-'' # digits_of (nat (- i)) else digits_of (nat i))"

definition nat_of_digits :: "string \<Rightarrow> nat" where
  "nat_of_digits ds = foldl (\<lambda>acc c. 10 * acc + (of_char c - 48)) 0 ds"

text \<open>
  \<open>long(s)\<close> on a Python 2 string, base ten: whitespace, an optional sign, whitespace,
  at least one decimal digit, an optional \<open>L\<close> or \<open>l\<close>, whitespace. \<open>None\<close> is the
  \<open>ValueError\<close> of any other string.
\<close>

definition py_long :: "string \<Rightarrow> int option" where
  "py_long s =
     (let t = dropWhile is_space s;
          neg = (t \<noteq> [] \<and> hd t = CHR ''-'');
          t1 = (if t \<noteq> [] \<and> (hd t = CHR ''-'' \<or> hd t = CHR ''+'') then tl t else t);
          t2 = dropWhile is_space t1;
          ds = takeWhile is_digit t2;
          r = dropWhile is_digit t2;
          r1 = (if r \<noteq> [] \<and> (hd r = CHR ''L'' \<or> hd r = CHR ''l'') then tl r else r)
      in if ds \<noteq> [] \<and> list_all is_space r1
         then Some (if neg then - int (nat_of_digits ds) else int (nat_of_digits ds))
         else None)"

subsection \<open>\<open>deconstruct_eclasses\<close>\<close>

definition deconstruct_eclasses :: "eclass_dict \<Rightarrow> string" where
  "deconstruct_eclasses eclass_dict =
     join_on TAB (map (\<lambda>(k, v). k @ TAB # fst v @ TAB # str_of_int (snd v)) eclass_dict)"

subsection \<open>\<open>reconstruct_eclasses\<close>\<close>

text \<open>
  The choice of layout, \<open>paths\<close> in the source: the \<open>if not l % 3 / elif not l % 2 / else\<close>
  chain on the token count. In the second branch \<open>l\<close> is even and positive, so
  \<open>eclasses[1]\<close> is in range.
\<close>

definition eclass_layout :: "cpv \<Rightarrow> string list \<Rightarrow> error + bool" where
  "eclass_layout cpv eclasses =
     (let l = length eclasses in
      if l mod 3 = 0 then Inr True
      else if l mod 2 = 0 then Inr (\<not> isdigit (eclasses ! 1))
      else Inl (CacheCorruption cpv (InvalidLen l)))"

text \<open>
  The loop \<open>for x in xrange(0, len(eclasses), 3)\<close>. The right-hand side
  \<open>(eclasses[x + 1], long(eclasses[x + 2]))\<close> is evaluated before the store, left to
  right: a group with fewer than three tokens raises \<open>IndexError\<close>, which the
  \<open>except ValueError\<close> does not catch; a token that \<open>long\<close> rejects raises
  \<open>ValueError\<close>, reported as \<open>CacheCorruption\<close>.
\<close>

fun parse_paths :: "cpv \<Rightarrow> string \<Rightarrow> string list \<Rightarrow> eclass_dict \<Rightarrow> error + eclass_dict" where
  "parse_paths cpv raw [] d = Inr d"
| "parse_paths cpv raw (name # path # mtime # rest) d =
     (case py_long mtime of
        None \<Rightarrow> Inl (CacheCorruption cpv (ValueErrorReading raw))
      | Some t \<Rightarrow> parse_paths cpv raw rest (AList.update name (path, t) d))"
| "parse_paths cpv raw _ d = Inl IndexError"

text \<open>The loop \<open>for x in xrange(0, len(eclasses), 2)\<close> of the layout without paths.\<close>

fun parse_legacy :: "cpv \<Rightarrow> string \<Rightarrow> string list \<Rightarrow> eclass_dict \<Rightarrow> error + eclass_dict" where
  "parse_legacy cpv raw [] d = Inr d"
| "parse_legacy cpv raw (name # mtime # rest) d =
     (case py_long mtime of
        None \<Rightarrow> Inl (CacheCorruption cpv (ValueErrorReading raw))
      | Some t \<Rightarrow> parse_legacy cpv raw rest (AList.update name ([], t) d))"
| "parse_legacy cpv raw _ d = Inl IndexError"

definition reconstruct_eclasses :: "cpv \<Rightarrow> val \<Rightarrow> error + eclass_dict" where
  "reconstruct_eclasses cpv eclass_string =
     (case eclass_string of
        Ecl _ \<Rightarrow> Inl TypeError
      | Str s \<Rightarrow>
          (let eclasses = split_on TAB (strip s) in
           if eclasses = [[]] then Inr []
           else (case eclass_layout cpv eclasses of
                   Inl e \<Rightarrow> Inl e
                 | Inr paths \<Rightarrow>
                     (if paths then parse_paths cpv s eclasses []
                      else parse_legacy cpv s eclasses []))))"

subsection \<open>The round trip, and example maps\<close>

text \<open>The tokens \<open>deconstruct_eclasses\<close> joins: three per entry.\<close>

definition tokens_of :: "eclass_dict \<Rightarrow> string list" where
  "tokens_of m = concat (map (\<lambda>(k, v). [k, fst v, str_of_int (snd v)]) m)"

text \<open>
  The round trip in the specification's words: for a dict whose modification times are
  not negative and whose paths hold no tab, decoding the encoding succeeds and gives an
  equal dict.
\<close>

definition roundtrip_claim :: "cpv \<Rightarrow> eclass_dict \<Rightarrow> bool" where
  "roundtrip_claim cpv m =
     (distinct (map fst m) \<and> (\<forall>(k, p, t)\<in>set m. 0 \<le> t \<and> TAB \<notin> set p) \<longrightarrow>
      (\<exists>d. reconstruct_eclasses cpv (Str (deconstruct_eclasses m)) = Inr d
           \<and> map_of d = map_of m))"

definition python_cpv :: cpv where
  "python_cpv = ''dev-lang/python-2.4''"

definition tab_name_map :: eclass_dict where
  "tab_name_map = [(''a'' @ [TAB] @ ''b'', (''p'', 1))]"

definition space_name_map :: eclass_dict where
  "space_name_map = [('' a'', (''p'', 1))]"

definition eutils_map :: eclass_dict where
  "eutils_map = [(''eutils'', (''/usr/portage/eclass'', 12)), (''multilib'', ('''', 0))]"

section \<open>Cache template: class \<open>base\<close> of \<open>pkgcore/cache/__init__.py\<close>\<close>

subsection \<open>Mappings in the store\<close>

text \<open>
  \<open>__setitem__\<close> is handed a reference to the caller's dict and may wrap it in a
  \<open>ProtectedDict\<close> of \<open>snakeoil.mappings\<close>, so the mappings live in a store: a list of
  objects, a reference being an index. A \<open>ProtectedDict\<close> holds a reference to the
  mapping it wraps (\<open>orig\<close>), the items written through it (\<open>new\<close>) and the keys
  deleted through it (\<open>blacklist\<close>). The operations below are those of the mapping
  protocol that \<open>__setitem__\<close> uses, for both kinds of object: on a dict they read and
  write the dict itself, on a \<open>ProtectedDict\<close> they follow its methods
  \<open>__contains__\<close>, \<open>__getitem__\<close>, \<open>__delitem__\<close> and \<open>__setitem__\<close>.
  The records callers pass are dicts; a wrapped reference that is not a dict in the
  store is read as the empty dict.
\<close>

type_synonym items = "(string \<times> val) list"

type_synonym ref = nat

datatype pyobj = Dict items | ProtectedDict ref items "string list"

type_synonym heap = "pyobj list"

definition heap_get :: "heap \<Rightarrow> ref \<Rightarrow> pyobj option" where
  "heap_get h r = (if r < length h then Some (h ! r) else None)"

definition dict_items :: "heap \<Rightarrow> ref \<Rightarrow> items" where
  "dict_items h r = (case heap_get h r of Some (Dict kvs) \<Rightarrow> kvs | _ \<Rightarrow> [])"

definition obj_contains :: "heap \<Rightarrow> ref \<Rightarrow> string \<Rightarrow> bool" where
  "obj_contains h r k =
     (case heap_get h r of
        None \<Rightarrow> False
      | Some (Dict kvs) \<Rightarrow> k \<in> set (map fst kvs)
      | Some (ProtectedDict orig new blacklist) \<Rightarrow>
          k \<in> set (map fst new) \<or>
          (k \<notin> set blacklist \<and> k \<in> set (map fst (dict_items h orig))))"

definition obj_getitem :: "heap \<Rightarrow> ref \<Rightarrow> string \<Rightarrow> error + val" where
  "obj_getitem h r k =
     (case heap_get h r of
        None \<Rightarrow> Inl KeyError
      | Some (Dict kvs) \<Rightarrow> (case map_of kvs k of None \<Rightarrow> Inl KeyError | Some v \<Rightarrow> Inr v)
      | Some (ProtectedDict orig new blacklist) \<Rightarrow>
          (case map_of new k of
             Some v \<Rightarrow> Inr v
           | None \<Rightarrow>
               (if k \<in> set blacklist then Inl KeyError
                else (case map_of (dict_items h orig) k of
                        None \<Rightarrow> Inl KeyError
                      | Some v \<Rightarrow> Inr v))))"

definition obj_delitem :: "heap \<Rightarrow> ref \<Rightarrow> string \<Rightarrow> error + heap" where
  "obj_delitem h r k =
     (case heap_get h r of
        None \<Rightarrow> Inl KeyError
      | Some (Dict kvs) \<Rightarrow>
          (if k \<in> set (map fst kvs) then Inr (h[r := Dict (AList.delete k kvs)])
           else Inl KeyError)
      | Some (ProtectedDict orig new blacklist) \<Rightarrow>
          (if k \<in> set (map fst new) then
             Inr (h[r := ProtectedDict orig (AList.delete k new) (List.insert k blacklist)])
           else if k \<in> set (map fst (dict_items h orig)) \<and> k \<notin> set blacklist then
             Inr (h[r := ProtectedDict orig new (List.insert k blacklist)])
           else Inl KeyError))"

definition obj_setitem :: "heap \<Rightarrow> ref \<Rightarrow> string \<Rightarrow> val \<Rightarrow> heap" where
  "obj_setitem h r k v =
     (case heap_get h r of
        None \<Rightarrow> h
      | Some (Dict kvs) \<Rightarrow> h[r := Dict (AList.update k v kvs)]
      | Some (ProtectedDict orig new blacklist) \<Rightarrow>
          h[r := ProtectedDict orig (AList.update k v new) (removeAll k blacklist)])"

text \<open>The items a mapping shows to a reader, \<open>iteritems()\<close>.\<close>

definition obj_items :: "heap \<Rightarrow> ref \<Rightarrow> items" where
  "obj_items h r =
     (case heap_get h r of
        None \<Rightarrow> []
      | Some (Dict kvs) \<Rightarrow> kvs
      | Some (ProtectedDict orig new blacklist) \<Rightarrow>
          new @ filter (\<lambda>(k, v). k \<notin> set blacklist \<and> k \<notin> set (map fst new))
                  (dict_items h orig))"

text \<open>\<open>ProtectedDict(values)\<close>: a new object, at the next free reference.\<close>

definition new_protected :: "heap \<Rightarrow> ref \<Rightarrow> ref \<times> heap" where
  "new_protected h values = (length h, h @ [ProtectedDict values [] []])"

text \<open>Python's truth value of a stored value: the empty string and the empty dict are false.\<close>

definition falsy :: "val \<Rightarrow> bool" where
  "falsy v = (case v of Str s \<Rightarrow> s = [] | Ecl m \<Rightarrow> m = [])"

subsection \<open>The cache object and its backend\<close>

text \<open>
  \<open>_getitem\<close>, \<open>_setitem\<close>, \<open>_delitem\<close> and \<open>commit\<close> raise \<open>NotImplementedError\<close> in
  \<open>base\<close> (\<open>commit\<close> unless \<open>autocommits\<close>); a derived class supplies them. They are the
  parameter \<open>B\<close>, acting on a backend state of any type \<open>'b\<close>. \<open>_setitem\<close> is handed
  the mapping object itself, a reference into the store, and returns the store as it
  leaves it, also when it raises: what it writes to its argument, it writes to the
  object the caller of \<open>_setitem\<close> holds. \<open>calls\<close> records every invocation of a
  primitive, in order, for \<open>_setitem\<close> with the items the mapping shows at the call;
  nothing reads it.
\<close>

datatype call = GetItem cpv | SetItem cpv items | DelItem cpv | Commit

record 'b backend_ops =
  raw_getitem :: "cpv \<Rightarrow> 'b \<Rightarrow> error + items"
  raw_setitem :: "cpv \<Rightarrow> ref \<Rightarrow> heap \<Rightarrow> 'b \<Rightarrow> (error + 'b) \<times> heap"
  raw_delitem :: "cpv \<Rightarrow> 'b \<Rightarrow> error + 'b"
  raw_commit :: "'b \<Rightarrow> error + 'b"

record 'b cache =
  readonly :: bool
  autocommits :: bool
  cleanse_keys :: bool
  serialize_eclasses :: bool
  sync_rate :: int
  updates :: int
  backend :: 'b
  calls :: "call list"

definition commit :: "'b backend_ops \<Rightarrow> 'b cache \<Rightarrow> (error + unit) \<times> 'b cache" where
  "commit B c =
     (let c1 = c\<lparr>calls := calls c @ [Commit]\<rparr> in
      case raw_commit B (backend c1) of
        Inl e \<Rightarrow> (Inl e, c1)
      | Inr b \<Rightarrow> (Inr (), c1\<lparr>backend := b\<rparr>))"

text \<open>
  The statement \<open>if self.updates > self.sync_rate: self.commit(); self.updates = 0\<close>,
  which \<open>__getitem__\<close>, \<open>__setitem__\<close> and \<open>__delitem__\<close> each contain.
\<close>

definition flush_if_due :: "'b backend_ops \<Rightarrow> 'b cache \<Rightarrow> (error + unit) \<times> 'b cache" where
  "flush_if_due B c =
     (if updates c > sync_rate c then
        (case commit B c of
           (Inl e, c1) \<Rightarrow> (Inl e, c1)
         | (Inr u, c1) \<Rightarrow> (Inr (), c1\<lparr>updates := 0\<rparr>))
      else (Inr (), c))"

subsection \<open>\<open>__getitem__\<close>\<close>


subsection \<open>\<open>__setitem__\<close>\<close>

text \<open>
  The loop \<open>for k in d.iterkeys(): if not d[k]: del d[k]\<close> on the new
  \<open>ProtectedDict\<close> \<open>d\<close>. Its \<open>new\<close> is empty, so \<open>iterkeys\<close> goes through the keys of the
  wrapped dict and yields each one that, when the generator reaches it, is neither
  blacklisted nor in \<open>new\<close>.
\<close>

fun cleanse_loop :: "ref \<Rightarrow> string list \<Rightarrow> heap \<Rightarrow> error + heap" where
  "cleanse_loop d [] h = Inr h"
| "cleanse_loop d (k # ks) h =
     (case heap_get h d of
        Some (ProtectedDict orig new blacklist) \<Rightarrow>
          (if k \<notin> set blacklist \<and> k \<notin> set (map fst new) then
             (case obj_getitem h d k of
                Inl e \<Rightarrow> Inl e
              | Inr v \<Rightarrow>
                  (if falsy v then
                     (case obj_delitem h d k of
                        Inl e \<Rightarrow> Inl e
                      | Inr h1 \<Rightarrow> cleanse_loop d ks h1)
                   else cleanse_loop d ks h))
           else cleanse_loop d ks h)
      | _ \<Rightarrow> Inl TypeError)"

text \<open>
  \<open>d["_eclasses_"] = self.deconstruct_eclasses(d["_eclasses_"])\<close>: the read raises
  \<open>KeyError\<close> if \<open>d\<close> has no such key, and \<open>iteritems\<close> on a string raises
  \<open>AttributeError\<close>.
\<close>

definition serialize_into :: "heap \<Rightarrow> ref \<Rightarrow> (error + ref) \<times> heap" where
  "serialize_into h d =
     (case obj_getitem h d ''_eclasses_'' of
        Inl e \<Rightarrow> (Inl e, h)
      | Inr (Str s) \<Rightarrow> (Inl AttributeError, h)
      | Inr (Ecl m) \<Rightarrow>
          (Inr d, obj_setitem h d ''_eclasses_'' (Str (deconstruct_eclasses m))))"

text \<open>
  Lines 83 to 94: the mapping \<open>d\<close> that is handed to \<open>_setitem\<close>, and the store as the
  statements leave it, also when one of them raises. In the last branch \<open>d = values\<close>:
  \<open>d\<close> is the caller's own mapping.
\<close>

definition prepare_record :: "'b cache \<Rightarrow> ref \<Rightarrow> heap \<Rightarrow> (error + ref) \<times> heap" where
  "prepare_record c values h =
     (if cleanse_keys c then
        (case new_protected h values of
           (d, h0) \<Rightarrow>
             (case cleanse_loop d (map fst (dict_items h0 values)) h0 of
                Inl e \<Rightarrow> (Inl e, h0)
              | Inr h1 \<Rightarrow>
                  (if serialize_eclasses c \<and> obj_contains h1 values ''_eclasses_''
                   then serialize_into h1 d
                   else (Inr d, h1))))
      else if serialize_eclasses c \<and> obj_contains h values ''_eclasses_'' then
        (case new_protected h values of (d, h0) \<Rightarrow> serialize_into h0 d)
      else (Inr values, h))"

definition setitem ::
  "'b backend_ops \<Rightarrow> cpv \<Rightarrow> ref \<Rightarrow> 'b cache \<times> heap \<Rightarrow> (error + unit) \<times> 'b cache \<times> heap" where
  "setitem B cpv values s =
     (case s of (c, h) \<Rightarrow>
      if readonly c then (Inl ReadOnly, (c, h))
      else
        (case prepare_record c values h of
           (Inl e, h1) \<Rightarrow> (Inl e, (c, h1))
         | (Inr d, h1) \<Rightarrow>
             (let c1 = c\<lparr>calls := calls c @ [SetItem cpv (obj_items h1 d)]\<rparr> in
              case raw_setitem B cpv d h1 (backend c1) of
                (Inl e, h2) \<Rightarrow> (Inl e, (c1, h2))
              | (Inr b, h2) \<Rightarrow>
                  (let c2 = c1\<lparr>backend := b\<rparr> in
                   if \<not> autocommits c2 then
                     (case flush_if_due B (c2\<lparr>updates := updates c2 + 1\<rparr>) of
                        (r, c3) \<Rightarrow> (r, (c3, h2)))
                   else (Inr (), (c2, h2))))))"

subsection \<open>\<open>__delitem__\<close>\<close>

definition delitem :: "'b backend_ops \<Rightarrow> cpv \<Rightarrow> 'b cache \<Rightarrow> (error + unit) \<times> 'b cache" where
  "delitem B cpv c =
     (if readonly c then (Inl ReadOnly, c)
      else
        (let c1 = (if \<not> autocommits c then c\<lparr>updates := updates c + 1\<rparr> else c);
             c2 = c1\<lparr>calls := calls c1 @ [DelItem cpv]\<rparr>
         in case raw_delitem B cpv (backend c2) of
              Inl e \<Rightarrow> (Inl e, c2)
            | Inr b \<Rightarrow> flush_if_due B (c2\<lparr>backend := b\<rparr>)))"

subsection \<open>\<open>__init__\<close> and \<open>sync\<close>\<close>

text \<open>
  A new cache: \<open>sync_rate\<close> and \<open>updates\<close> are zero, and the policy flags are the class
  attributes of \<open>base\<close>.
\<close>

definition init :: "bool \<Rightarrow> 'b \<Rightarrow> 'b cache" where
  "init ro b =
     \<lparr>readonly = ro, autocommits = False, cleanse_keys = False, serialize_eclasses = True,
      sync_rate = 0, updates = 0, backend = b, calls = []\<rparr>"

definition sync :: "'b backend_ops \<Rightarrow> int \<Rightarrow> 'b cache \<Rightarrow> (error + unit) \<times> 'b cache" where
  "sync B rate c =
     (let c1 = c\<lparr>sync_rate := rate\<rparr> in
      if rate = 0 then commit B c1 else (Inr (), c1))"

subsection \<open>What a call leaves of the store\<close>




subsection \<open>An example backend and example records\<close>

text \<open>
  A backend that keeps the records in an association list; its \<open>commit\<close> does nothing.
\<close>

definition mem_backend :: "(cpv \<times> items) list backend_ops" where
  "mem_backend =
     \<lparr>raw_getitem = (\<lambda>cpv b. case map_of b cpv of None \<Rightarrow> Inl KeyError | Some d \<Rightarrow> Inr d),
      raw_setitem = (\<lambda>cpv d h b. (Inr (AList.update cpv (obj_items h d) b), h)),
      raw_delitem = (\<lambda>cpv b. if cpv \<in> set (map fst b) then Inr (AList.delete cpv b)
                               else Inl KeyError),
      raw_commit = (\<lambda>b. Inr b)\<rparr>"


definition readonly_cache :: "(cpv \<times> items) list cache" where
  "readonly_cache = init True []"

definition cleansing_cache :: "(cpv \<times> items) list cache" where
  "cleansing_cache = (init False [])\<lparr>cleanse_keys := True\<rparr>"

definition slot_record :: items where
  "slot_record = [(''SLOT'', Str ''2.4'')]"

definition empty_eclasses_record :: items where
  "empty_eclasses_record = [(''SLOT'', Str ''2.4''), (''_eclasses_'', Ecl [])]"








section \<open>Properties of the slot tracker\<close>

lemma fill_scan_conflicts:
  "fill_scan mtch eqv bucket obj xs l = Inr (Some l') \<Longrightarrow> l' = l @ filter (conflicts mtch obj) xs"
  by (induction mtch eqv bucket obj xs l rule: fill_scan.induct)
     (auto simp: conflicts_def split: if_splits)

lemma fill_scan_return:
  "fill_scan mtch eqv bucket obj xs l = Inr None \<Longrightarrow> xs \<noteq> []"
  by (cases xs) auto

lemma occupants_append: "occupants (xs @ ys) = occupants xs @ occupants ys"
  by (induction xs rule: occupants.induct) auto

lemma occupants_set: "p \<in> set (occupants b) \<longleftrightarrow> Pkg p \<in> set b"
  by (induction b rule: occupants.induct) auto

lemma occupants_filter:
  "occupants (filter P b) = filter (\<lambda>p. P (Pkg p)) (occupants b)"
  by (induction b rule: occupants.induct) auto

lemma slots_unique_filter: "slots_unique b \<Longrightarrow> slots_unique (filter P b)"
  by (simp add: slots_unique_def occupants_filter distinct_map_filter)

lemma guarded_append:
  "guarded mtch seen (xs @ [x]) \<longleftrightarrow>
     guarded mtch seen xs \<and>
     (case x of Pkg p \<Rightarrow> \<not> list_ex (blocks mtch p) (seen @ xs) | Atom _ \<Rightarrow> True)"
  by (induction xs arbitrary: seen) (auto split: entry.splits)

lemma guarded_filter:
  "guarded mtch seen xs \<Longrightarrow> set seen' \<subseteq> set seen \<Longrightarrow> guarded mtch seen' (filter P xs)"
proof (induction xs arbitrary: seen seen')
  case Nil
  then show ?case by simp
next
  case (Cons x xs)
  have sub: "set (seen' @ [x]) \<subseteq> set (seen @ [x])" using Cons.prems(2) by auto
  have sub2: "set seen' \<subseteq> set (seen @ [x])" using Cons.prems(2) by auto
  from Cons.prems(1) have g: "guarded mtch (seen @ [x]) xs" by simp
  show ?case
  proof (cases "P x")
    case True
    then show ?thesis using Cons.prems Cons.IH[OF g sub]
      by (auto simp: list_ex_iff split: entry.splits)
  next
    case False
    then show ?thesis using Cons.IH[OF g sub2] by simp
  qed
qed

lemma guarded_prefix:
  "guarded mtch seen (ys @ Pkg p # zs) \<Longrightarrow> \<not> list_ex (blocks mtch p) (seen @ ys)"
proof (induction ys arbitrary: seen)
  case Nil
  then show ?case by simp
next
  case (Cons y ys)
  from Cons.prems have "guarded mtch (seen @ [y]) (ys @ Pkg p # zs)" by simp
  from Cons.IH[OF this] show ?case by simp
qed

lemma bucket_ok_Nil: "bucket_ok mtch []"
  by (simp add: bucket_ok_def slots_unique_def)

lemma bucket_ok_filter: "bucket_ok mtch b \<Longrightarrow> bucket_ok mtch (filter P b)"
  using guarded_filter[of mtch "[]" b "[]" P] by (simp add: bucket_ok_def slots_unique_filter)

lemma bucket_ok_atom: "bucket_ok mtch b \<Longrightarrow> bucket_ok mtch (b @ [Atom a])"
  by (simp add: bucket_ok_def slots_unique_def occupants_append guarded_append)

lemma bucket_ok_pkg:
  assumes "bucket_ok mtch b" and "filter (conflicts mtch obj) b = []"
  shows "bucket_ok mtch (b @ [Pkg obj])"
proof -
  have none: "\<forall>x\<in>set b. \<not> conflicts mtch obj x"
    using assms(2) by (simp add: filter_empty_conv)
  have slot: "pkg_slot obj \<notin> pkg_slot ` set (occupants b)"
  proof
    assume "pkg_slot obj \<in> pkg_slot ` set (occupants b)"
    then obtain p where "Pkg p \<in> set b" "pkg_slot p = pkg_slot obj"
      by (auto simp: occupants_set)
    with none show False by (auto simp: conflicts_def)
  qed
  have blk: "\<not> list_ex (blocks mtch obj) b"
  proof
    assume "list_ex (blocks mtch obj) b"
    then obtain y where y: "y \<in> set b" "blocks mtch obj y" by (auto simp: list_ex_iff)
    from y(2) obtain a where "y = Atom a" "mtch a obj"
      by (cases y) (auto simp: blocks_def)
    with none y show False by (auto simp: conflicts_def)
  qed
  show ?thesis
    using assms(1) slot blk
    by (simp add: bucket_ok_def slots_unique_def occupants_append guarded_append)
qed

lemma fill_slotting_ok:
  assumes "buckets_ok mtch sd"
  shows "buckets_ok mtch (snd (fill_slotting mtch eqv obj sd))"
proof -
  define bucket where "bucket = (case sd (pkg_key obj) of None \<Rightarrow> [] | Some b \<Rightarrow> b)"
  have b_ok: "bucket_ok mtch bucket"
    using assms by (auto simp: bucket_def buckets_ok_def bucket_ok_Nil split: option.splits)
  have sd1: "buckets_ok mtch (sd(pkg_key obj \<mapsto> bucket))"
    using assms b_ok by (simp add: buckets_ok_def)
  show ?thesis
  proof (cases "fill_scan mtch eqv bucket obj bucket []")
    case (Inl e)
    then show ?thesis using sd1 by (simp add: fill_slotting_def bucket_def [symmetric])
  next
    case (Inr r)
    show ?thesis
    proof (cases r)
      case None
      then show ?thesis using Inr sd1 by (simp add: fill_slotting_def bucket_def [symmetric])
    next
      case (Some l)
      show ?thesis
      proof (cases "l = []")
        case True
        have "filter (conflicts mtch obj) bucket = []"
          using fill_scan_conflicts[of mtch eqv bucket obj bucket "[]" l] Inr Some True by simp
        then have "bucket_ok mtch (bucket @ [Pkg obj])" using b_ok by (rule bucket_ok_pkg[rotated])
        then show ?thesis using Inr Some True assms
          by (simp add: fill_slotting_def bucket_def [symmetric] buckets_ok_def)
      next
        case False
        then show ?thesis using Inr Some sd1
          by (simp add: fill_slotting_def bucket_def [symmetric])
      qed
    qed
  qed
qed

lemma add_limiter_ok:
  assumes "buckets_ok mtch sd"
  shows "buckets_ok mtch (snd (add_limiter mtch x sd))"
proof (cases x)
  case (Pkg p)
  then show ?thesis using assms by (simp add: add_limiter_def)
next
  case (Atom a)
  have "bucket_ok mtch (case sd (atom_key a) of None \<Rightarrow> [] | Some b \<Rightarrow> b)"
    using assms by (auto simp: buckets_ok_def bucket_ok_Nil split: option.splits)
  then show ?thesis using assms Atom
    by (simp add: add_limiter_def buckets_ok_def bucket_ok_atom Let_def)
qed

lemma remove_slotting_ok:
  assumes "buckets_ok mtch sd"
  shows "buckets_ok mtch (snd (remove_slotting x sd))"
  using assms
  by (auto simp: remove_slotting_def buckets_ok_def Let_def bucket_ok_filter
           split: option.splits if_splits)

lemma apply_op_ok: "buckets_ok mtch sd \<Longrightarrow> buckets_ok mtch (apply_op mtch eqv sd op)"
  by (cases op) (simp_all add: fill_slotting_ok add_limiter_ok remove_slotting_ok)

lemma foldl_ok: "buckets_ok mtch sd \<Longrightarrow> buckets_ok mtch (foldl (apply_op mtch eqv) sd ops)"
  by (induction ops arbitrary: sd) (simp_all add: apply_op_ok)

lemma run_ops_ok: "buckets_ok mtch (run_ops mtch eqv ops)"
  unfolding run_ops_def by (rule foldl_ok) (simp add: buckets_ok_def)

lemma limiter_conflicts:
  "filter (\<lambda>x. case x of Pkg p \<Rightarrow> mtch a p | Atom _ \<Rightarrow> False) b
     = map Pkg (filter (mtch a) (occupants b))"
  by (induction b rule: occupants.induct) auto

lemma add_limiter_result:
  "add_limiter mtch (Atom a) sd =
     (Inr (map Pkg (filter (mtch a) (occupants (bucket_of sd (atom_key a))))),
      sd(atom_key a \<mapsto> bucket_of sd (atom_key a) @ [Atom a]))"
  by (simp add: add_limiter_def bucket_of_def Let_def limiter_conflicts)

text \<open>
  Claim C1, as amended. After every sequence of \<open>fill_slotting\<close>, \<open>add_limiter\<close> and
  \<open>remove_slotting\<close> calls on a new tracker, every bucket holds at most one package per
  slot, and no package in it is matched by an atom that stands before it in the bucket,
  that is, by a blocker that was registered when the package was inserted. A blocker
  added later may match packages already there: on every tracker, \<open>add_limiter\<close> appends
  the blocker to the bucket of its key whether or not it matches, and returns exactly
  the packages of that bucket that it matches, in order.
\<close>

theorem tracker_reachable_invariant:
  "run_ops mtch eqv ops k = Some b \<Longrightarrow>
     distinct (map pkg_slot (occupants b)) \<and>
     (\<forall>ys p zs a. b = ys @ Pkg p # zs \<and> Atom a \<in> set ys \<longrightarrow> \<not> mtch a p) \<and>
     (\<forall>a sd. add_limiter mtch (Atom a) sd =
        (Inr (map Pkg (filter (mtch a) (occupants (bucket_of sd (atom_key a))))),
         sd(atom_key a \<mapsto> bucket_of sd (atom_key a) @ [Atom a])))"
proof -
  assume "run_ops mtch eqv ops k = Some b"
  then have ok: "bucket_ok mtch b"
    using run_ops_ok[of mtch eqv ops] by (simp add: buckets_ok_def)
  have "\<not> mtch a p" if "b = ys @ Pkg p # zs" "Atom a \<in> set ys" for ys p zs a
  proof -
    have "\<not> list_ex (blocks mtch p) ([] @ ys)"
      using ok that(1) guarded_prefix[of mtch "[]" ys p zs] by (simp add: bucket_ok_def)
    then show ?thesis using that(2) by (auto simp: list_ex_iff blocks_def)
  qed
  then have "\<forall>ys p zs a. b = ys @ Pkg p # zs \<and> Atom a \<in> set ys \<longrightarrow> \<not> mtch a p"
    by blast
  moreover have "distinct (map pkg_slot (occupants b))"
    using ok by (simp add: bucket_ok_def slots_unique_def)
  ultimately show ?thesis using add_limiter_result by blast
qed

lemmas example_defs =
  python_key_def pkg_A_def pkg_A2_def pkg_B_def blocker_24_def version_match_def same_version_def

text \<open>
  Claim C1 as the specification states it, \<open>tracker_invariant\<close>, fails after
  \<open>fill_slotting\<close> of a package followed by \<open>add_limiter\<close> of an atom matching it:
  the bucket then holds both.
\<close>

theorem tracker_invariant_counterexample:
  "\<not> tracker_invariant version_match
       (run_ops version_match same_version [Fill pkg_A, Limit (Atom blocker_24)])"
proof
  assume inv: "tracker_invariant version_match
       (run_ops version_match same_version [Fill pkg_A, Limit (Atom blocker_24)])"
  have run: "run_ops version_match same_version [Fill pkg_A, Limit (Atom blocker_24)] python_key
        = Some [Pkg pkg_A, Atom blocker_24]"
    by (simp add: run_ops_def fill_slotting_def add_limiter_def Let_def example_defs)
  from inv run have "\<not> version_match blocker_24 pkg_A"
    unfolding tracker_invariant_def by (meson list.set_intros)
  then show False by (simp add: example_defs)
qed

theorem tracker_reachable_invariant_witness:
  "run_ops version_match same_version [Limit (Atom blocker_24), Fill pkg_A, Fill pkg_B] python_key
     = Some [Atom blocker_24, Pkg pkg_B]
   \<and> distinct (map pkg_slot (occupants [Atom blocker_24, Pkg pkg_B]))
   \<and> \<not> version_match blocker_24 pkg_B
   \<and> add_limiter version_match (Atom blocker_24) [python_key \<mapsto> [Pkg pkg_A]]
       = (Inr [Pkg pkg_A], [python_key \<mapsto> [Pkg pkg_A, Atom blocker_24]])
   \<and> add_limiter version_match (Atom blocker_24) [python_key \<mapsto> [Pkg pkg_B]]
       = (Inr [], [python_key \<mapsto> [Pkg pkg_B, Atom blocker_24]])"
proof -
  have run: "run_ops version_match same_version
               [Limit (Atom blocker_24), Fill pkg_A, Fill pkg_B] python_key
             = Some [Atom blocker_24, Pkg pkg_B]"
    by (simp add: run_ops_def fill_slotting_def add_limiter_def Let_def example_defs)
  note inv = tracker_reachable_invariant[OF run]
  from inv have d: "distinct (map pkg_slot (occupants [Atom blocker_24, Pkg pkg_B]))"
    by simp
  from inv have "[Atom blocker_24, Pkg pkg_B] = [Atom blocker_24] @ Pkg pkg_B # []
      \<and> Atom blocker_24 \<in> set [Atom blocker_24] \<longrightarrow> \<not> version_match blocker_24 pkg_B"
    by blast
  then have m: "\<not> version_match blocker_24 pkg_B" by simp
  from inv have l: "add_limiter version_match (Atom blocker_24) sd =
        (Inr (map Pkg (filter (version_match blocker_24)
                (occupants (bucket_of sd (atom_key blocker_24))))),
         sd(atom_key blocker_24 \<mapsto> bucket_of sd (atom_key blocker_24) @ [Atom blocker_24]))"
    for sd by blast
  have l1: "add_limiter version_match (Atom blocker_24) [python_key \<mapsto> [Pkg pkg_A]]
       = (Inr [Pkg pkg_A], [python_key \<mapsto> [Pkg pkg_A, Atom blocker_24]])"
    unfolding l by (simp add: bucket_of_def example_defs)
  have l2: "add_limiter version_match (Atom blocker_24) [python_key \<mapsto> [Pkg pkg_B]]
       = (Inr [], [python_key \<mapsto> [Pkg pkg_B, Atom blocker_24]])"
    unfolding l by (simp add: bucket_of_def example_defs)
  from run d m l1 l2 show ?thesis by simp
qed

text \<open>
  Claim C7. On a new tracker, \<open>fill_slotting\<close> of a package \<open>A\<close> with key \<open>K\<close> returns
  no conflict and stores \<open>A\<close>; \<open>fill_slotting\<close> of a package \<open>B\<close> with the same key and
  slot that \<open>A\<close> does not equal returns \<open>[A]\<close> and leaves the bucket as it is;
  \<open>fill_slotting\<close> of a package of that key and slot that \<open>A\<close> equals returns no
  conflict and leaves the bucket with its one entry.
\<close>

theorem fill_slotting_same_slot:
  assumes "pkg_key A = K" and "pkg_key B = K" and "pkg_slot B = pkg_slot A" and "\<not> eqv A B"
    and "pkg_key A' = K" and "pkg_slot A' = pkg_slot A" and "eqv A A'"
  shows "fill_slotting mtch eqv A Map.empty = (Inr [], [K \<mapsto> [Pkg A]])
       \<and> fill_slotting mtch eqv B [K \<mapsto> [Pkg A]] = (Inr [Pkg A], [K \<mapsto> [Pkg A]])
       \<and> fill_slotting mtch eqv A' [K \<mapsto> [Pkg A]] = (Inr [], [K \<mapsto> [Pkg A]])"
  using assms by (simp add: fill_slotting_def blocks_def Let_def)

theorem fill_slotting_same_slot_witness:
  "pkg_key pkg_A = python_key \<and> pkg_key pkg_B = python_key \<and> pkg_slot pkg_A = ''1''
   \<and> pkg_slot pkg_B = pkg_slot pkg_A \<and> \<not> same_version pkg_A pkg_B
   \<and> pkg_key pkg_A2 = python_key \<and> pkg_slot pkg_A2 = pkg_slot pkg_A \<and> same_version pkg_A pkg_A2
   \<and> fill_slotting version_match same_version pkg_A Map.empty
       = (Inr [], [python_key \<mapsto> [Pkg pkg_A]])
   \<and> fill_slotting version_match same_version pkg_B [python_key \<mapsto> [Pkg pkg_A]]
       = (Inr [Pkg pkg_A], [python_key \<mapsto> [Pkg pkg_A]])
   \<and> fill_slotting version_match same_version pkg_A2 [python_key \<mapsto> [Pkg pkg_A]]
       = (Inr [], [python_key \<mapsto> [Pkg pkg_A]])"
proof -
  have h: "pkg_key pkg_A = python_key" "pkg_key pkg_B = python_key"
    "pkg_slot pkg_B = pkg_slot pkg_A" "\<not> same_version pkg_A pkg_B"
    "pkg_key pkg_A2 = python_key" "pkg_slot pkg_A2 = pkg_slot pkg_A" "same_version pkg_A pkg_A2"
    by (simp_all add: example_defs)
  have "pkg_slot pkg_A = ''1''" by (simp add: pkg_A_def)
  with h fill_slotting_same_slot[where A = pkg_A and B = pkg_B and A' = pkg_A2
      and K = python_key and eqv = same_version and mtch = version_match]
  show ?thesis by simp
qed

subsection \<open>Removal and empty buckets\<close>

lemma remove_absent_key:
  "sd (entry_key e) = None \<Longrightarrow> remove_slotting e sd = (Inl KeyError, sd)"
  by (simp add: remove_slotting_def)

lemma remove_not_slotted:
  "sd (entry_key e) = Some b \<Longrightarrow> e \<notin> set b \<Longrightarrow> remove_slotting e sd = (Inl KeyError, sd)"
proof -
  assume k: "sd (entry_key e) = Some b" and "e \<notin> set b"
  then have "filter (\<lambda>x. x \<noteq> e) b = b" by (auto simp: filter_id_conv)
  with k show ?thesis by (simp add: remove_slotting_def)
qed

lemma remove_slotted:
  assumes "sd (entry_key e) = Some b" and "e \<in> set b"
  shows "remove_slotting e sd =
     (Inr (), sd(entry_key e := (if removeAll e b = [] then None else Some (removeAll e b))))"
proof -
  have f: "filter (\<lambda>x. x \<noteq> e) b = removeAll e b"
    by (induction b) auto
  have "length (filter (\<lambda>x. x \<noteq> e) b) < length b"
    using assms(2) by (intro length_filter_less[of e]) auto
  then have "length (removeAll e b) \<noteq> length b" using f by simp
  then show ?thesis using assms(1) f by (simp add: remove_slotting_def)
qed

lemma fill_slotting_no_empty:
  assumes "no_empty_bucket sd"
  shows "no_empty_bucket (snd (fill_slotting mtch eqv obj sd))"
proof (cases "sd (pkg_key obj)")
  case None
  then show ?thesis using assms by (simp add: fill_slotting_def no_empty_bucket_def)
next
  case (Some b)
  then have "b \<noteq> []" using assms by (auto simp: no_empty_bucket_def)
  then show ?thesis using assms Some
    by (auto simp: fill_slotting_def no_empty_bucket_def Let_def split: sum.splits option.splits)
qed

lemma add_limiter_no_empty:
  "no_empty_bucket sd \<Longrightarrow> no_empty_bucket (snd (add_limiter mtch x sd))"
  by (cases x) (simp_all add: add_limiter_def no_empty_bucket_def Let_def)

lemma remove_slotting_no_empty:
  "no_empty_bucket sd \<Longrightarrow> no_empty_bucket (snd (remove_slotting e sd))"
  by (auto simp: remove_slotting_def no_empty_bucket_def Let_def split: option.splits)

lemma apply_op_no_empty:
  "no_empty_bucket sd \<Longrightarrow> no_empty_bucket (apply_op mtch eqv sd op)"
  by (cases op) (simp_all add: fill_slotting_no_empty add_limiter_no_empty remove_slotting_no_empty)

lemma foldl_no_empty:
  "no_empty_bucket sd \<Longrightarrow> no_empty_bucket (foldl (apply_op mtch eqv) sd ops)"
  by (induction ops arbitrary: sd) (simp_all add: apply_op_no_empty)

text \<open>
  Claim C8. \<open>remove_slotting\<close> raises \<open>KeyError\<close> when the entry's key has no bucket
  and when the entry is not in the bucket, leaving the tracker as it was. Otherwise it
  removes the entry (every occurrence of that object) and keeps the others in order,
  and deletes the key when nothing is left. No call leaves an empty bucket behind: not
  \<open>remove_slotting\<close> on a tracker without one, and no sequence of calls on a new tracker.
\<close>

theorem remove_slotting_not_found_or_removed:
  "(sd (entry_key e) = None \<longrightarrow> remove_slotting e sd = (Inl KeyError, sd))
   \<and> (\<forall>b. sd (entry_key e) = Some b \<and> e \<notin> set b \<longrightarrow>
          remove_slotting e sd = (Inl KeyError, sd))
   \<and> (\<forall>b. sd (entry_key e) = Some b \<and> e \<in> set b \<longrightarrow>
          remove_slotting e sd =
            (Inr (), sd(entry_key e :=
                      (if removeAll e b = [] then None else Some (removeAll e b)))))
   \<and> (no_empty_bucket sd \<longrightarrow> no_empty_bucket (snd (remove_slotting e sd)))
   \<and> no_empty_bucket (run_ops mtch eqv ops)"
proof -
  have "no_empty_bucket (run_ops mtch eqv ops)"
    unfolding run_ops_def by (rule foldl_no_empty) (simp add: no_empty_bucket_def)
  then show ?thesis
    using remove_absent_key remove_not_slotted remove_slotted remove_slotting_no_empty
    by blast
qed

theorem remove_slotting_witness:
  "remove_slotting (Pkg pkg_A) Map.empty = (Inl KeyError, Map.empty)
   \<and> remove_slotting (Pkg pkg_A2) [python_key \<mapsto> [Pkg pkg_A]]
       = (Inl KeyError, [python_key \<mapsto> [Pkg pkg_A]])
   \<and> remove_slotting (Pkg pkg_A) [python_key \<mapsto> [Pkg pkg_A]] = (Inr (), Map.empty)
   \<and> remove_slotting (Pkg pkg_A) [python_key \<mapsto> [Pkg pkg_A, Atom blocker_24]]
       = (Inr (), [python_key \<mapsto> [Atom blocker_24]])
   \<and> run_ops version_match same_version [Fill pkg_A, Remove (Pkg pkg_A)] python_key = None"
proof -
  have k: "entry_key (Pkg pkg_A) = python_key" "entry_key (Pkg pkg_A2) = python_key"
    by (simp_all add: entry_key_def example_defs)
  have ne: "Pkg pkg_A2 \<noteq> Pkg pkg_A" "Atom blocker_24 \<noteq> Pkg pkg_A"
    by (simp_all add: example_defs)
  note r = remove_slotting_not_found_or_removed
  have 1: "remove_slotting (Pkg pkg_A) Map.empty = (Inl KeyError, Map.empty)"
    using r[of Map.empty "Pkg pkg_A"] by simp
  have 2: "remove_slotting (Pkg pkg_A2) [python_key \<mapsto> [Pkg pkg_A]]
       = (Inl KeyError, [python_key \<mapsto> [Pkg pkg_A]])"
    using r[of "[python_key \<mapsto> [Pkg pkg_A]]" "Pkg pkg_A2"] k ne by simp
  have 3: "remove_slotting (Pkg pkg_A) [python_key \<mapsto> [Pkg pkg_A]] = (Inr (), Map.empty)"
    using r[of "[python_key \<mapsto> [Pkg pkg_A]]" "Pkg pkg_A"] k by simp
  have 4: "remove_slotting (Pkg pkg_A) [python_key \<mapsto> [Pkg pkg_A, Atom blocker_24]]
       = (Inr (), [python_key \<mapsto> [Atom blocker_24]])"
    using r[of "[python_key \<mapsto> [Pkg pkg_A, Atom blocker_24]]" "Pkg pkg_A"] k ne by simp
  have 5: "run_ops version_match same_version [Fill pkg_A, Remove (Pkg pkg_A)] python_key = None"
    using 3 k by (simp add: run_ops_def fill_slotting_def Let_def pkg_A_def)
  from 1 2 3 4 5 show ?thesis by simp
qed

section \<open>Properties of the eclass codec\<close>

subsection \<open>Decimal strings, \<open>strip\<close>, \<open>split\<close> and \<open>join\<close>\<close>

lemma digits_of_nonempty: "digits_of n \<noteq> []"
  by (subst digits_of.simps) simp

lemma is_digit_char_of: "(d::nat) < 10 \<Longrightarrow> is_digit (char_of (48 + d))"
  by (simp add: is_digit_def)

lemma digit_val_char_of: "d < 10 \<Longrightarrow> of_char (char_of (48 + d) :: char) - 48 = (d::nat)"
  by simp

lemma digits_of_all_digits: "list_all is_digit (digits_of n)"
proof (induction n rule: digits_of.induct)
  case (1 n)
  show ?case
  proof (cases "n < 10")
    case True
    then show ?thesis by (subst digits_of.simps) (simp add: is_digit_char_of)
  next
    case False
    then show ?thesis using 1
      by (subst digits_of.simps) (simp add: is_digit_char_of)
  qed
qed

lemma nat_of_digits_snoc:
  "nat_of_digits (ds @ [c]) = 10 * nat_of_digits ds + (of_char c - 48)"
  by (simp add: nat_of_digits_def)

lemma nat_of_digits_of: "nat_of_digits (digits_of n) = n"
proof (induction n rule: digits_of.induct)
  case (1 n)
  show ?case
  proof (cases "n < 10")
    case True
    then show ?thesis by (subst digits_of.simps) (simp add: nat_of_digits_def)
  next
    case False
    then show ?thesis using 1
      by (subst digits_of.simps) (simp add: nat_of_digits_snoc)
  qed
qed

lemma digit_not_space: "is_digit c \<Longrightarrow> \<not> is_space c"
  by (auto simp: is_digit_def is_space_def)

lemma digit_not_tab: "is_digit c \<Longrightarrow> c \<noteq> TAB"
  by (auto simp: is_digit_def TAB_def)

lemma digit_not_sign: "is_digit c \<Longrightarrow> c \<noteq> CHR ''-'' \<and> c \<noteq> CHR ''+''"
  by (auto simp: is_digit_def)

lemma strip_id:
  assumes "s \<noteq> []" and "\<not> is_space (hd s)" and "\<not> is_space (last s)"
  shows "strip s = s"
proof -
  have 1: "dropWhile is_space s = s" using assms(1,2) by (cases s) auto
  have "rev s \<noteq> []" "\<not> is_space (hd (rev s))"
    using assms(1,3) by (simp_all add: hd_rev)
  then have "dropWhile is_space (rev s) = rev s" by (cases "rev s") auto
  with 1 show ?thesis by (simp add: strip_def)
qed

lemma py_long_digits_of: "py_long (digits_of n) = Some (int n)"
proof -
  let ?ds = "digits_of n"
  have ne: "?ds \<noteq> []" by (rule digits_of_nonempty)
  have all: "list_all is_digit ?ds" by (rule digits_of_all_digits)
  have h: "is_digit (hd ?ds)" using ne all by (auto simp: list_all_iff)
  have 1: "dropWhile is_space ?ds = ?ds"
    using ne h by (cases ?ds) (auto dest: digit_not_space)
  have 2: "hd ?ds \<noteq> CHR ''-''" "hd ?ds \<noteq> CHR ''+''"
    using h digit_not_sign by blast+
  have 3: "takeWhile is_digit ?ds = ?ds" "dropWhile is_digit ?ds = []"
    using all by (simp_all add: list_all_iff)
  show ?thesis
    using ne by (simp add: py_long_def Let_def 1 2 3 nat_of_digits_of)
qed

lemma py_long_str_of_int: "0 \<le> t \<Longrightarrow> py_long (str_of_int t) = Some t"
  by (simp add: str_of_int_def py_long_digits_of)

lemma digits_of_no_tab: "TAB \<notin> set (digits_of n)"
  using digits_of_all_digits[of n] digit_not_tab by (auto simp: list_all_iff)

lemma split_on_token:
  "sep \<notin> set t \<Longrightarrow> split_on sep (t @ sep # r) = t # split_on sep r"
  by (induction t) auto

lemma split_on_single: "sep \<notin> set t \<Longrightarrow> split_on sep t = [t]"
  by (induction t) auto

lemma split_join:
  "toks \<noteq> [] \<Longrightarrow> \<forall>t\<in>set toks. sep \<notin> set t \<Longrightarrow> split_on sep (join_on sep toks) = toks"
  by (induction sep toks rule: join_on.induct) (auto simp: split_on_token split_on_single)


subsection \<open>The round trip\<close>

lemma tokens_of_Nil: "tokens_of [] = []"
  by (simp add: tokens_of_def)

lemma tokens_of_Cons:
  "tokens_of ((k, p, t) # m) = k # p # str_of_int t # tokens_of m"
  by (simp add: tokens_of_def)

lemma tokens_of_snoc:
  "tokens_of (m @ [(k, p, t)]) = tokens_of m @ [k, p, str_of_int t]"
  by (simp add: tokens_of_def)

lemma length_tokens_of: "length (tokens_of m) = 3 * length m"
  by (induction m) (auto simp: tokens_of_Nil tokens_of_Cons)

lemma join_on_Cons: "ts \<noteq> [] \<Longrightarrow> join_on sep (t # ts) = t @ sep # join_on sep ts"
  by (cases ts) auto

lemma deconstruct_tokens: "deconstruct_eclasses m = join_on TAB (tokens_of m)"
proof (induction m rule: induct_list012)
  case 1
  show ?case by (simp add: deconstruct_eclasses_def tokens_of_Nil)
next
  case (2 e)
  show ?case by (cases e) (simp add: deconstruct_eclasses_def tokens_of_Cons tokens_of_Nil)
next
  case (3 e e' m)
  obtain k p t where e: "e = (k, p, t)" by (cases e) auto
  obtain k' p' t' where e': "e' = (k', p', t')" by (cases e') auto
  from 3(2) have "join_on TAB (map (\<lambda>(k, v). k @ TAB # fst v @ TAB # str_of_int (snd v)) (e' # m))
      = join_on TAB (tokens_of (e' # m))"
    by (simp add: deconstruct_eclasses_def)
  then show ?case
    by (simp add: deconstruct_eclasses_def e e' tokens_of_Cons)
qed

lemma hd_join_on: "t \<noteq> [] \<Longrightarrow> hd (join_on sep (t # ts)) = hd t"
  by (cases ts) auto

lemma join_on_last_nonempty:
  "toks \<noteq> [] \<Longrightarrow> last toks \<noteq> [] \<Longrightarrow> join_on sep toks \<noteq> []"
  by (induction sep toks rule: join_on.induct) auto

lemma last_join_on:
  "toks \<noteq> [] \<Longrightarrow> last toks \<noteq> [] \<Longrightarrow> last (join_on sep toks) = last (last toks)"
  by (induction sep toks rule: join_on.induct) (auto simp: join_on_last_nonempty)

lemma join_on_nonempty: "t \<noteq> [] \<Longrightarrow> join_on sep (t # ts) \<noteq> []"
  by (cases ts) auto

lemma parse_paths_tokens:
  assumes "distinct (map fst m)" and "\<forall>(k, p, t)\<in>set m. 0 \<le> t"
  shows "\<exists>d'. parse_paths cpv raw (tokens_of m) d = Inr d'
            \<and> map_of d' = map_of d ++ map_of m"
  using assms
proof (induction m arbitrary: d)
  case Nil
  then show ?case by (simp add: tokens_of_Nil)
next
  case (Cons e m)
  obtain k p t where e: "e = (k, p, t)" by (cases e) auto
  from Cons.prems e have t: "0 \<le> t" and k: "k \<notin> fst ` set m"
    and d: "distinct (map fst m)" and r: "\<forall>(k, p, t)\<in>set m. 0 \<le> t"
    by auto
  from Cons.IH[OF d r, of "AList.update k (p, t) d"]
  obtain d' where p: "parse_paths cpv raw (tokens_of m) (AList.update k (p, t) d) = Inr d'"
    and m: "map_of d' = map_of (AList.update k (p, t) d) ++ map_of m"
    by blast
  have km: "map_of m k = None" using k by (simp add: map_of_eq_None_iff)
  have "map_of d' = map_of d ++ map_of ((k, p, t) # m)"
  proof
    fix x
    show "map_of d' x = (map_of d ++ map_of ((k, p, t) # m)) x"
      using m km by (cases "x = k") (auto simp: update_conv' map_add_def split: option.splits)
  qed
  moreover have "parse_paths cpv raw (tokens_of (e # m)) d = Inr d'"
    using p t by (simp add: e tokens_of_Cons py_long_str_of_int)
  ultimately show ?case unfolding e by blast
qed

text \<open>
  Claim C2, as amended. For a dict whose modification times are not negative, whose
  names and paths hold no tab, and whose first name in iteration order is not empty and
  does not begin with a whitespace character, \<open>reconstruct_eclasses\<close> of
  \<open>deconstruct_eclasses\<close> succeeds, for every coordinate, and returns a dict with the
  same entries.
\<close>

theorem eclass_roundtrip:
  assumes "distinct (map fst m)"
    and "\<forall>(k, p, t)\<in>set m. TAB \<notin> set k \<and> TAB \<notin> set p \<and> 0 \<le> t"
    and "m \<noteq> [] \<longrightarrow> fst (hd m) \<noteq> [] \<and> \<not> is_space (hd (fst (hd m)))"
  shows "\<exists>d. reconstruct_eclasses cpv (Str (deconstruct_eclasses m)) = Inr d
            \<and> map_of d = map_of m"
proof (cases m)
  case Nil
  then show ?thesis
    by (simp add: reconstruct_eclasses_def deconstruct_eclasses_def strip_def)
next
  case (Cons e m')
  obtain k p t where e: "e = (k, p, t)" by (cases e) auto
  let ?s = "deconstruct_eclasses m"
  let ?toks = "tokens_of m"
  have s: "?s = join_on TAB ?toks" by (rule deconstruct_tokens)
  have k: "k \<noteq> []" "\<not> is_space (hd k)" using assms(3) Cons e by auto
  have toks: "?toks = k # p # str_of_int t # tokens_of m'"
    by (simp add: Cons e tokens_of_Cons)
  have ne: "?s \<noteq> []" using k by (simp add: s toks join_on_nonempty)
  have hd: "hd ?s = hd k" using k by (simp add: s toks hd_join_on)
  obtain m0 k1 p1 t1 where snoc: "m = m0 @ [(k1, p1, t1)]"
    using Cons by (metis list.distinct(1) rev_exhaust surj_pair)
  then have t1: "0 \<le> t1" using assms(2) by auto
  have lt: "last ?toks = digits_of (nat t1)"
    using t1 by (simp add: snoc tokens_of_snoc str_of_int_def)
  have "last ?toks \<noteq> []" "?toks \<noteq> []"
    using lt digits_of_nonempty toks by simp_all
  then have "last ?s = last (last ?toks)"
    unfolding s by (intro last_join_on)
  then have "last ?s = last (digits_of (nat t1))"
    using lt by simp
  moreover have "is_digit (last (digits_of (nat t1)))"
    using digits_of_all_digits[of "nat t1"] digits_of_nonempty[of "nat t1"]
    by (auto simp: list_all_iff)
  ultimately have "\<not> is_space (last ?s)" by (simp add: digit_not_space)
  with ne hd k have strip: "strip ?s = ?s" by (intro strip_id) auto
  have notab: "\<forall>tok\<in>set ?toks. TAB \<notin> set tok"
  proof
    fix tok assume "tok \<in> set ?toks"
    then obtain k p t where "(k, p, t) \<in> set m" "tok \<in> {k, p, str_of_int t}"
      by (auto simp: tokens_of_def)
    then show "TAB \<notin> set tok"
      using assms(2) digits_of_no_tab by (auto simp: str_of_int_def)
  qed
  have "?toks \<noteq> []" using toks by simp
  then have "split_on TAB (join_on TAB ?toks) = ?toks"
    using notab by (rule split_join)
  then have split: "split_on TAB (strip ?s) = ?toks"
    unfolding strip unfolding s .
  have len: "length ?toks mod 3 = 0" by (simp add: length_tokens_of)
  have ne1: "?toks \<noteq> [[]]" using toks by simp
  have nonneg: "\<forall>(k, p, t)\<in>set m. 0 \<le> t" using assms(2) by auto
  from parse_paths_tokens[OF assms(1) nonneg, of cpv ?s "[]"]
  obtain d where "parse_paths cpv ?s ?toks [] = Inr d" "map_of d = map_of m"
    by auto
  then show ?thesis
    using split len ne1 by (simp add: reconstruct_eclasses_def eclass_layout_def)
qed


subsection \<open>The codec on concrete strings\<close>

lemmas codec_eval =
  reconstruct_eclasses_def deconstruct_eclasses_def eclass_layout_def strip_def
  is_space_def is_digit_def isdigit_def TAB_def py_long_def str_of_int_def nat_of_digits_def
  Let_def

text \<open>
  Claim C2 as the specification states it, \<open>roundtrip_claim\<close>, restricts the paths
  only. It fails for a name that holds a tab, where the decoder raises
  \<open>CacheCorruption\<close>, and for a name that begins with a space, which \<open>strip\<close> removes:
  the decoder then returns a dict with another key.
\<close>

theorem eclass_roundtrip_counterexample:
  "reconstruct_eclasses python_cpv (Str (deconstruct_eclasses tab_name_map))
     = Inl (CacheCorruption python_cpv (ValueErrorReading (deconstruct_eclasses tab_name_map)))
   \<and> reconstruct_eclasses python_cpv (Str (deconstruct_eclasses space_name_map))
     = Inr [(''a'', (''p'', 1))]
   \<and> \<not> roundtrip_claim python_cpv tab_name_map
   \<and> \<not> roundtrip_claim python_cpv space_name_map"
proof -
  have d1: "digits_of (Suc 0) = ''1''" by code_simp
  have 1: "reconstruct_eclasses python_cpv (Str (deconstruct_eclasses tab_name_map))
     = Inl (CacheCorruption python_cpv (ValueErrorReading (deconstruct_eclasses tab_name_map)))"
    by (simp add: codec_eval tab_name_map_def d1)
  have 2: "reconstruct_eclasses python_cpv (Str (deconstruct_eclasses space_name_map))
     = Inr [(''a'', (''p'', 1))]"
    by (simp add: codec_eval space_name_map_def d1)
  have 3: "\<not> roundtrip_claim python_cpv tab_name_map"
    unfolding roundtrip_claim_def 1 by (simp add: tab_name_map_def TAB_def)
  have "map_of [(''a'', (''p'', 1::int))] ''a'' \<noteq> map_of space_name_map ''a''"
    by (simp add: space_name_map_def)
  then have "map_of [(''a'', (''p'', 1::int))] \<noteq> map_of space_name_map" by metis
  then have 4: "\<not> roundtrip_claim python_cpv space_name_map"
    unfolding roundtrip_claim_def 2 by (simp add: space_name_map_def TAB_def)
  from 1 2 3 4 show ?thesis by simp
qed

theorem eclass_roundtrip_witness:
  "distinct (map fst eutils_map)
   \<and> (\<exists>d. reconstruct_eclasses python_cpv (Str (deconstruct_eclasses eutils_map)) = Inr d
          \<and> map_of d = map_of eutils_map)"
proof -
  have 1: "distinct (map fst eutils_map)" by (simp add: eutils_map_def)
  have 2: "\<forall>(k, p, t)\<in>set eutils_map. TAB \<notin> set k \<and> TAB \<notin> set p \<and> 0 \<le> t"
    by (simp add: eutils_map_def TAB_def)
  have 3: "eutils_map \<noteq> [] \<longrightarrow>
      fst (hd eutils_map) \<noteq> [] \<and> \<not> is_space (hd (fst (hd eutils_map)))"
    by (simp add: eutils_map_def is_space_def)
  from 1 eclass_roundtrip[OF 1 2 3, of python_cpv] show ?thesis by simp
qed

text \<open>
  Claim C3 says that decoding the two tokens \<open>a\<close>, \<open>b\<close> fails with
  \<open>CacheCorruption\<close>. The code chooses the layout with paths, since \<open>b\<close> is not a
  number, and reads a third token: it raises \<open>IndexError\<close>, for every coordinate.
\<close>

theorem reconstruct_two_tokens_index_error:
  "reconstruct_eclasses cpv (Str (''a'' @ [TAB] @ ''b'')) = Inl IndexError"
  by (simp add: codec_eval)

text \<open>
  Claim C4 says that a token count that is even and not a multiple of three is decoded
  in the layout without paths, the second token being inspected for multiples of six.
  The code inspects the second token exactly when the count is even and not a multiple
  of three: for the two tokens \<open>a\<close>, \<open>b\<close> it chooses the layout with paths, whose loop
  then raises \<open>IndexError\<close>, and for six tokens it chooses the layout with paths
  without looking at the second token.
\<close>

theorem layout_inspects_second_token:
  "eclass_layout cpv [''a'', ''b''] = Inr True
   \<and> parse_paths cpv raw [''a'', ''b''] [] = Inl IndexError
   \<and> eclass_layout cpv [''a'', ''1'', ''b'', ''2'', ''c'', ''3''] = Inr True"
  by (simp add: eclass_layout_def isdigit_def is_digit_def)

section \<open>Properties of the cache template\<close>

subsection \<open>Read-only caches\<close>

text \<open>
  Claim C6. On a cache with \<open>readonly\<close> set, \<open>__setitem__\<close> and \<open>__delitem__\<close> raise
  \<open>ReadOnly\<close> for every coordinate and record and leave the cache and the store as they
  were: no backend primitive is called (\<open>calls\<close> is unchanged), and the counter
  \<open>updates\<close> keeps its value.
\<close>

theorem readonly_rejects_mutation:
  "readonly c \<Longrightarrow>
     setitem B cpv values (c, h) = (Inl ReadOnly, (c, h)) \<and> delitem B cpv c = (Inl ReadOnly, c)"
  by (simp add: setitem_def delitem_def)

theorem readonly_rejects_mutation_witness:
  "readonly readonly_cache
   \<and> setitem mem_backend python_cpv 0 (readonly_cache, [Dict slot_record])
       = (Inl ReadOnly, (readonly_cache, [Dict slot_record]))
   \<and> delitem mem_backend python_cpv readonly_cache = (Inl ReadOnly, readonly_cache)"
proof -
  have r: "readonly readonly_cache" by (simp add: readonly_cache_def init_def)
  from r readonly_rejects_mutation[OF r, of mem_backend python_cpv 0 "[Dict slot_record]"]
  show ?thesis by simp
qed

subsection \<open>Batching\<close>













subsection \<open>The caller's record\<close>




















subsection \<open>Cleansing an empty \<open>_eclasses_\<close> value\<close>

lemma cleanse_loop_blacklist:
  assumes "values < d" and "d < length h" and "h ! values = Dict kvs"
    and "h ! d = ProtectedDict values [] bl"
    and "distinct ks" and "set ks \<subseteq> set (map fst kvs)" and "set ks \<inter> set bl = {}"
  shows "\<exists>bl'. cleanse_loop d ks h = Inr (h[d := ProtectedDict values [] bl'])
           \<and> set bl' = set bl \<union> {k \<in> set ks. \<exists>v. map_of kvs k = Some v \<and> falsy v}"
  using assms
proof (induction ks arbitrary: h bl)
  case Nil
  then have "h[d := ProtectedDict values [] bl] = h" by (metis list_update_id)
  then show ?case by (intro exI[of _ bl]) simp
next
  case (Cons k ks)
  have hd: "heap_get h d = Some (ProtectedDict values [] bl)"
    using Cons.prems by (simp add: heap_get_def)
  have di: "dict_items h values = kvs"
    using Cons.prems by (simp add: dict_items_def heap_get_def)
  have kbl: "k \<notin> set bl" using Cons.prems(7) by auto
  from Cons.prems(6) obtain v where v: "map_of kvs k = Some v"
    by (cases "map_of kvs k") (auto simp: map_of_eq_None_iff)
  have kk: "k \<in> set (map fst kvs)" using Cons.prems(6) by simp
  have g: "obj_getitem h d k = Inr v"
    using hd di kbl v by (simp add: obj_getitem_def)
  have ks: "distinct ks" "set ks \<subseteq> set (map fst kvs)" "k \<notin> set ks"
    using Cons.prems(5,6) by auto
  show ?case
  proof (cases "falsy v")
    case False
    have step: "cleanse_loop d (k # ks) h = cleanse_loop d ks h"
      using hd kbl g False by simp
    have "set ks \<inter> set bl = {}" using Cons.prems(7) by auto
    from Cons.IH[OF Cons.prems(1-4) ks(1,2) this]
    obtain bl' where b: "cleanse_loop d ks h = Inr (h[d := ProtectedDict values [] bl'])"
      "set bl' = set bl \<union> {k \<in> set ks. \<exists>v. map_of kvs k = Some v \<and> falsy v}"
      by blast
    have "{x \<in> set (k # ks). \<exists>v. map_of kvs x = Some v \<and> falsy v}
        = {x \<in> set ks. \<exists>v. map_of kvs x = Some v \<and> falsy v}"
      using v False by auto
    then have "set bl' = set bl \<union> {x \<in> set (k # ks). \<exists>v. map_of kvs x = Some v \<and> falsy v}"
      using b(2) by simp
    moreover have "cleanse_loop d (k # ks) h = Inr (h[d := ProtectedDict values [] bl'])"
      using step b(1) by (rule trans)
    ultimately show ?thesis by blast
  next
    case True
    let ?h1 = "h[d := ProtectedDict values [] (List.insert k bl)]"
    have del: "obj_delitem h d k = Inr ?h1"
      using hd di kbl kk by (simp add: obj_delitem_def)
    have step: "cleanse_loop d (k # ks) h = cleanse_loop d ks ?h1"
      using hd kbl g True del by simp
    have p: "d < length ?h1" "?h1 ! values = Dict kvs"
      "?h1 ! d = ProtectedDict values [] (List.insert k bl)"
      "set ks \<inter> set (List.insert k bl) = {}"
      using Cons.prems ks(3) by auto
    from Cons.IH[OF Cons.prems(1) p(1-3) ks(1,2) p(4)]
    obtain bl' where b: "cleanse_loop d ks ?h1 = Inr (?h1[d := ProtectedDict values [] bl'])"
      "set bl' = set (List.insert k bl) \<union> {k \<in> set ks. \<exists>v. map_of kvs k = Some v \<and> falsy v}"
      by blast
    have ov: "?h1[d := ProtectedDict values [] bl'] = h[d := ProtectedDict values [] bl']"
      by simp
    have "{x \<in> set (k # ks). \<exists>v. map_of kvs x = Some v \<and> falsy v}
        = insert k {x \<in> set ks. \<exists>v. map_of kvs x = Some v \<and> falsy v}"
      using v True by auto
    then have "set bl' = set bl \<union> {x \<in> set (k # ks). \<exists>v. map_of kvs x = Some v \<and> falsy v}"
      using b(2) by simp
    moreover have "cleanse_loop d (k # ks) h = Inr (h[d := ProtectedDict values [] bl'])"
      using step b(1) unfolding ov by (rule trans)
    ultimately show ?thesis by blast
  qed
qed

text \<open>
  Claim C10. With \<open>cleanse_keys\<close> and \<open>serialize_eclasses\<close> set, on a cache that is not
  read-only, \<open>__setitem__\<close> of a dict whose \<open>_eclasses_\<close> value is false in Python's
  sense raises \<open>KeyError\<close>: the cleansing loop has deleted the key from the
  \<open>ProtectedDict\<close>, the test \<open>"_eclasses_" in values\<close> looks at the caller's dict, and
  the read \<open>d["_eclasses_"]\<close> fails. The cache is left as it was: \<open>_setitem\<close> is not
  called and nothing is stored.
\<close>

theorem setitem_cleansed_eclasses_key_error:
  assumes "\<not> readonly c" and "cleanse_keys c" and "serialize_eclasses c"
    and "values < length h" and "h ! values = Dict kvs" and "distinct (map fst kvs)"
    and "map_of kvs ''_eclasses_'' = Some v" and "falsy v"
  shows "fst (setitem B cpv values (c, h)) = Inl KeyError
       \<and> fst (snd (setitem B cpv values (c, h))) = c"
proof -
  let ?d = "length h"
  let ?h0 = "h @ [ProtectedDict values [] []]"
  have di: "dict_items ?h0 values = kvs"
    using assms(4,5) by (simp add: dict_items_def heap_get_def nth_append)
  have "\<exists>bl'. cleanse_loop ?d (map fst kvs) ?h0 = Inr (?h0[?d := ProtectedDict values [] bl'])
           \<and> set bl' = set [] \<union> {k \<in> set (map fst kvs). \<exists>v. map_of kvs k = Some v \<and> falsy v}"
    using assms(4,5,6) by (intro cleanse_loop_blacklist) (simp_all add: nth_append)
  then obtain bl' where
    loop: "cleanse_loop ?d (map fst kvs) ?h0 = Inr (?h0[?d := ProtectedDict values [] bl'])"
    and bl: "set bl' = {k \<in> set (map fst kvs). \<exists>v. map_of kvs k = Some v \<and> falsy v}"
    by auto
  let ?h1 = "?h0[?d := ProtectedDict values [] bl']"
  have key: "''_eclasses_'' \<in> set (map fst kvs)"
    using assms(7) by (metis map_of_eq_None_iff option.distinct(1) set_map)
  then have inbl: "''_eclasses_'' \<in> set bl'" using bl assms(7,8) by simp
  have v1: "heap_get ?h1 values = Some (Dict kvs)"
    using assms(4,5) by (simp add: heap_get_def nth_append)
  have d1: "heap_get ?h1 ?d = Some (ProtectedDict values [] bl')"
    by (simp add: heap_get_def)
  have cont: "obj_contains ?h1 values ''_eclasses_''"
    using v1 key by (simp add: obj_contains_def)
  have get: "obj_getitem ?h1 ?d ''_eclasses_'' = Inl KeyError"
    using d1 inbl by (simp add: obj_getitem_def)
  have "prepare_record c values h = (Inl KeyError, ?h1)"
    using assms(2,3) di loop cont get
    by (simp add: prepare_record_def new_protected_def serialize_into_def)
  then show ?thesis using assms(1) by (simp add: setitem_def)
qed

theorem setitem_cleansed_eclasses_key_error_witness:
  "\<not> readonly cleansing_cache \<and> cleanse_keys cleansing_cache
   \<and> serialize_eclasses cleansing_cache
   \<and> [Dict empty_eclasses_record] ! 0 = Dict empty_eclasses_record
   \<and> map_of empty_eclasses_record ''_eclasses_'' = Some (Ecl []) \<and> falsy (Ecl [])
   \<and> fst (setitem mem_backend python_cpv 0 (cleansing_cache, [Dict empty_eclasses_record]))
       = Inl KeyError
   \<and> fst (snd (setitem mem_backend python_cpv 0 (cleansing_cache, [Dict empty_eclasses_record])))
       = cleansing_cache"
proof -
  have f: "\<not> readonly cleansing_cache" "cleanse_keys cleansing_cache"
    "serialize_eclasses cleansing_cache"
    by (simp_all add: cleansing_cache_def init_def)
  have h: "(0::nat) < length [Dict empty_eclasses_record]"
    "[Dict empty_eclasses_record] ! 0 = Dict empty_eclasses_record"
    "distinct (map fst empty_eclasses_record)"
    "map_of empty_eclasses_record ''_eclasses_'' = Some (Ecl [])" "falsy (Ecl [])"
    by (simp_all add: empty_eclasses_record_def falsy_def)
  from f h setitem_cleansed_eclasses_key_error[OF f h, of mem_backend python_cpv]
  show ?thesis by simp
qed

end
